theory Spec2Isabelle
  imports Complex_Main "HOL-Library.Char_ord" "HOL-Library.List_Lexorder"
begin

section \<open>Python dictionaries\<close>

text \<open>
  A Python \<^verbatim>\<open>dict\<close> keeps its keys in insertion order, and the program depends on
  that order twice (the stable sort of \<^verbatim>\<open>seqs.items()\<close> and the candidate order of
  \<^verbatim>\<open>trans_counter.items()\<close>). A dictionary is therefore an association list:
  \<open>dict_set\<close> overwrites the value of a key where the key stands and appends a new key
  at the end, \<open>dict_get\<close> is \<^verbatim>\<open>d.get(k, dflt)\<close>, which is also what indexing a
  \<^verbatim>\<open>defaultdict\<close> or a \<^verbatim>\<open>Counter\<close> reads.
\<close>

primrec dict_set :: "'k \<Rightarrow> 'v \<Rightarrow> ('k \<times> 'v) list \<Rightarrow> ('k \<times> 'v) list" where
  "dict_set k v [] = [(k, v)]"
| "dict_set k v (p # ps) = (if fst p = k then (k, v) # ps else p # dict_set k v ps)"

definition dict_get :: "('k \<times> 'v) list \<Rightarrow> 'k \<Rightarrow> 'v \<Rightarrow> 'v" where
  "dict_get d k dflt = (case map_of d k of None \<Rightarrow> dflt | Some v \<Rightarrow> v)"

section \<open>Transition tables: \<^verbatim>\<open>build_markov_models\<close>\<close>

text \<open>
  A note of a voice is the pair \<^verbatim>\<open>(n, dur)\<close>. A \<^verbatim>\<open>Counter\<close> maps a next pitch to its
  count. The keys of a transition table are Python values that are later looked up with
  \<^verbatim>\<open>model.get(prev, Counter())\<close>, where \<^verbatim>\<open>prev\<close> is \<^verbatim>\<open>None\<close> or a pitch, so a key is
  an \<open>int option\<close>.
\<close>

type_synonym note_event = "int \<times> int"
type_synonym counter = "(int \<times> nat) list"
type_synonym trans = "(int option \<times> counter) list"
type_synonym seqs = "(int \<times> note_event list) list"

text \<open>\<^verbatim>\<open>trans[cur][nxt] += 1\<close> on a \<^verbatim>\<open>defaultdict(Counter)\<close>.\<close>

definition trans_incr :: "trans \<Rightarrow> int \<Rightarrow> int \<Rightarrow> trans" where
  "trans_incr tr cur nxt =
     (let c = dict_get tr (Some cur) []
      in dict_set (Some cur) (dict_set nxt (dict_get c nxt 0 + 1) c) tr)"

text \<open>The body of the loop over one voice: \<^verbatim>\<open>for i in range(len(arr) - 1)\<close>.\<close>

definition build_trans :: "note_event list \<Rightarrow> trans" where
  "build_trans arr =
     foldl (\<lambda>tr i. trans_incr tr (fst (arr ! i)) (fst (arr ! (i + 1))))
       [] [0..<length arr - 1]"

definition build_markov_models :: "seqs \<Rightarrow> (int \<times> trans) list" where
  "build_markov_models seqs =
     foldl (\<lambda>models (ch, arr). dict_set ch (build_trans arr) models) [] seqs"

text \<open>The count stored for the transition from \<open>a\<close> to \<open>b\<close>; an absent key reads 0.\<close>

definition trans_count :: "trans \<Rightarrow> int \<Rightarrow> int \<Rightarrow> nat" where
  "trans_count t a b = dict_get (dict_get t (Some a) []) b 0"

text \<open>The number of positions \<open>i\<close> where \<open>a\<close> is followed by \<open>b\<close>.\<close>

definition pair_occurrences :: "note_event list \<Rightarrow> int \<Rightarrow> int \<Rightarrow> nat" where
  "pair_occurrences arr a b =
     length (filter (\<lambda>i. fst (arr ! i) = a \<and> fst (arr ! (i + 1)) = b) [0..<length arr - 1])"

text \<open>A table holds no empty counter, no zero count, no key twice and no key \<^verbatim>\<open>None\<close>.\<close>

definition counter_ok :: "counter \<Rightarrow> bool" where
  "counter_ok c = (c \<noteq> [] \<and> distinct (map fst c) \<and> list_all (\<lambda>p. 0 < snd p) c)"

definition trans_ok :: "trans \<Rightarrow> bool" where
  "trans_ok t = (distinct (map fst t) \<and> list_all (\<lambda>p. fst p \<noteq> None \<and> counter_ok (snd p)) t)"

section \<open>MIDI messages and files\<close>

text \<open>
  The messages of the MIDI library, by type, with the attributes the program reads.
  Every message carries its delta time \<^verbatim>\<open>msg.time\<close> as last argument:
  \<open>Note_on channel note velocity time\<close>, \<open>Note_off channel note velocity time\<close>,
  \<open>Program_change channel program time\<close>, \<open>Set_tempo tempo time\<close>, and \<open>Other_msg time\<close>
  for every other type. A file is its \<^verbatim>\<open>ticks_per_beat\<close> and its tracks.
\<close>

datatype msg =
    Note_on int int int int
  | Note_off int int int int
  | Program_change int int int
  | Set_tempo int int
  | Other_msg int

fun msg_time :: "msg \<Rightarrow> int" where
  "msg_time (Note_on ch n vel t) = t"
| "msg_time (Note_off ch n vel t) = t"
| "msg_time (Program_change ch prog t) = t"
| "msg_time (Set_tempo tp t) = t"
| "msg_time (Other_msg t) = t"

fun set_msg_time :: "msg \<Rightarrow> int \<Rightarrow> msg" where
  "set_msg_time (Note_on ch n vel _) t = Note_on ch n vel t"
| "set_msg_time (Note_off ch n vel _) t = Note_off ch n vel t"
| "set_msg_time (Program_change ch prog _) t = Program_change ch prog t"
| "set_msg_time (Set_tempo tp _) t = Set_tempo tp t"
| "set_msg_time (Other_msg _) t = Other_msg t"

record midi_file =
  ticks_per_beat :: int
  tracks :: "msg list list"

section \<open>Sequence extraction: \<^verbatim>\<open>extract_sequences\<close>\<close>

text \<open>\<^verbatim>\<open>d.pop(k)\<close> for a key that is present.\<close>

definition dict_pop :: "'k \<Rightarrow> ('k \<times> 'v) list \<Rightarrow> ('k \<times> 'v) list" where
  "dict_pop k d = filter (\<lambda>p. fst p \<noteq> k) d"

text \<open>The inner loop over one track: \<^verbatim>\<open>abs_t += msg.time\<close>, then the pair is appended.\<close>

fun track_events :: "int \<Rightarrow> msg list \<Rightarrow> (int \<times> msg) list" where
  "track_events abs_t [] = []"
| "track_events abs_t (m # ms) = (abs_t + msg_time m, m) # track_events (abs_t + msg_time m) ms"

text \<open>All tracks in order, then the stable sort by absolute time.\<close>

definition file_events :: "midi_file \<Rightarrow> (int \<times> msg) list" where
  "file_events mid = sort_key fst (concat (map (track_events 0) (tracks mid)))"

text \<open>
  The variables of \<^verbatim>\<open>extract_sequences\<close>. \<open>active\<close> is the \<^verbatim>\<open>defaultdict(dict)\<close> of the
  open notes of the file being scanned.
\<close>

record extract_state =
  seqs_of :: seqs
  programs_of :: "(int \<times> int) list"
  tpb_of :: int
  tempo_of :: int
  active_of :: "(int \<times> (int \<times> int) list) list"

text \<open>
  The branch of a note end: \<^verbatim>\<open>if ch in active and n in active[ch]\<close>, the pop, the
  duration with its fallback, the append to \<^verbatim>\<open>seqs[ch]\<close>.
\<close>

definition note_end :: "extract_state \<Rightarrow> int \<Rightarrow> int \<Rightarrow> int \<Rightarrow> extract_state" where
  "note_end s abs_t ch n =
     (case map_of (active_of s) ch of
        None \<Rightarrow> s
      | Some d \<Rightarrow>
          (case map_of d n of
             None \<Rightarrow> s
           | Some start \<Rightarrow>
               (let dur = abs_t - start;
                    dur = (if dur \<le> 0 then tpb_of s div 4 else dur)
                in s\<lparr>active_of := dict_set ch (dict_pop n d) (active_of s),
                     seqs_of := dict_set ch (dict_get (seqs_of s) ch [] @ [(n, dur)]) (seqs_of s)\<rparr>)))"

text \<open>The body of the loop over the sorted events of a file.\<close>

fun scan_msg :: "extract_state \<Rightarrow> int \<times> msg \<Rightarrow> extract_state" where
  "scan_msg s (abs_t, Set_tempo tp t) = s\<lparr>tempo_of := tp\<rparr>"
| "scan_msg s (abs_t, Program_change ch prog t) = s\<lparr>programs_of := dict_set ch prog (programs_of s)\<rparr>"
| "scan_msg s (abs_t, Note_on ch n vel t) =
     (if vel > 0 then
        s\<lparr>active_of := dict_set ch (dict_set n abs_t (dict_get (active_of s) ch [])) (active_of s)\<rparr>
      else if vel = 0 then note_end s abs_t ch n
      else s)"
| "scan_msg s (abs_t, Note_off ch n vel t) = note_end s abs_t ch n"
| "scan_msg s (abs_t, Other_msg t) = s"

text \<open>
  The body of the loop over the files: \<^verbatim>\<open>mid.ticks_per_beat or ticks_per_beat\<close>, a fresh
  \<^verbatim>\<open>active\<close>, the scan.
\<close>

definition scan_file :: "extract_state \<Rightarrow> midi_file \<Rightarrow> extract_state" where
  "scan_file s mid =
     foldl scan_msg
       (s\<lparr>tpb_of := (if ticks_per_beat mid \<noteq> 0 then ticks_per_beat mid else tpb_of s),
          active_of := []\<rparr>)
       (file_events mid)"

definition extract_init :: extract_state where
  "extract_init = \<lparr>seqs_of = [], programs_of = [], tpb_of = 480, tempo_of = 500000, active_of = []\<rparr>"

definition extract_run :: "midi_file list \<Rightarrow> extract_state" where
  "extract_run mid_files = foldl scan_file extract_init mid_files"

definition extract_sequences :: "midi_file list \<Rightarrow> seqs \<times> (int \<times> int) list \<times> int \<times> int" where
  "extract_sequences mid_files =
     (let s = extract_run mid_files in (seqs_of s, programs_of s, tpb_of s, tempo_of s))"


text \<open>
  \<open>seq_extends fb old new\<close>: the sequence \<open>new\<close> is \<open>old\<close> with notes appended, and every
  appended note has a positive duration or the duration \<open>fb\<close>.
\<close>

definition seq_extends :: "int \<Rightarrow> note_event list \<Rightarrow> note_event list \<Rightarrow> bool" where
  "seq_extends fb old new =
     (take (length old) new = old \<and>
      list_all (\<lambda>p. 0 < snd p \<or> snd p = fb) (drop (length old) new))"

section \<open>The random source\<close>

text \<open>
  The pseudo-random generator is a scripted stream of the values that successive calls of
  \<^verbatim>\<open>random.random()\<close> return; a call reads the head and leaves the tail. The floats of
  the program are real numbers here: rounding is not modelled, and neither is the
  \<^verbatim>\<open>OverflowError\<close> of a float operation, which needs an interval or a count beyond the
  range of a float, far from any pitch. \<^verbatim>\<open>random.choices(population, weights)[0]\<close> is the
  library's bisection of one draw, scaled by the total, in the cumulative weights, with
  the index capped at the last position. \<^verbatim>\<open>random.choice(seq)\<close> takes the element at the
  position that one draw, scaled by the length, falls in. Both are only called with a
  non-empty population. No theorem below restricts the stream, so every result holds
  for every sequence of draws.
\<close>

type_synonym rng = "nat \<Rightarrow> real"

definition random_random :: "rng \<Rightarrow> real \<times> rng" where
  "random_random g = (g 0, \<lambda>i. g (Suc i))"

fun accumulate :: "real \<Rightarrow> real list \<Rightarrow> real list" where
  "accumulate acc [] = []"
| "accumulate acc (w # ws) = (acc + w) # accumulate (acc + w) ws"

definition random_choices :: "'a list \<Rightarrow> real list \<Rightarrow> rng \<Rightarrow> 'a \<times> rng" where
  "random_choices population weights g =
     (let (u, g') = random_random g;
          cum_weights = accumulate 0 weights;
          total = last cum_weights;
          i = length (takeWhile (\<lambda>c. c \<le> u * total) (butlast cum_weights))
      in (population ! i, g'))"

definition random_choice :: "'a list \<Rightarrow> rng \<Rightarrow> 'a \<times> rng" where
  "random_choice sq g =
     (let (u, g') = random_random g;
          i = min (length sq - 1) (nat \<lfloor>u * real (length sq)\<rfloor>)
      in (sq ! i, g'))"

section \<open>Note selection: \<^verbatim>\<open>choose_note\<close>\<close>

definition PREFER_STEP_WEIGHT :: real where
  "PREFER_STEP_WEIGHT = 1.2"

text \<open>The melodic-distance factor of a candidate; \<^verbatim>\<open>prev_note\<close> may be \<^verbatim>\<open>None\<close>.\<close>

definition lead :: "int \<Rightarrow> int option \<Rightarrow> real" where
  "lead n prev_note =
     (let interval = (case prev_note of None \<Rightarrow> 0 | Some p \<Rightarrow> \<bar>n - p\<bar>)
      in if interval = 0 then 1
         else 1 / (1 + (real_of_int interval / 7) powr PREFER_STEP_WEIGHT))"

definition note_weights :: "counter \<Rightarrow> int option \<Rightarrow> (int \<times> real) list" where
  "note_weights candidates prev_note =
     map (\<lambda>(n, cnt). (n, real cnt * lead n prev_note)) candidates"

text \<open>
  The cumulative loop \<^verbatim>\<open>for n, w in weights: s += w; if r <= s: return n\<close>; \<open>None\<close>
  when the loop ends without returning.
\<close>

fun pick :: "(int \<times> real) list \<Rightarrow> real \<Rightarrow> real \<Rightarrow> int option" where
  "pick [] r s = None"
| "pick ((n, w) # ws) r s = (if r \<le> s + w then Some n else pick ws r (s + w))"

definition choose_note :: "counter \<Rightarrow> int option \<Rightarrow> int list \<Rightarrow> rng \<Rightarrow> int \<times> rng" where
  "choose_note trans_counter prev_note fallback_notes g =
     (if trans_counter \<noteq> [] then
        (let weights = note_weights trans_counter prev_note;
             total = sum_list (map snd weights)
         in if total \<le> 0 then (fst (hd trans_counter), g)
            else (let (u, g') = random_random g;
                      r = u * total
                  in (case pick weights r 0 of
                        Some n \<Rightarrow> (n, g')
                      | None \<Rightarrow> (fst (last weights), g'))))
      else if fallback_notes \<noteq> [] then random_choice fallback_notes g
      else (60, g))"


section \<open>Generation: \<^verbatim>\<open>generate_events\<close>\<close>

definition MAX_GLOBAL_POLY :: int where
  "MAX_GLOBAL_POLY = 5"

definition MAX_CHANNELS :: int where
  "MAX_CHANNELS = 5"

definition GRID :: int where
  "GRID = 240"

definition BARS :: int where
  "BARS = 32"

definition ONSET_PROB :: real where
  "ONSET_PROB = 0.55"

text \<open>
  The constructor of a channel message raises \<^verbatim>\<open>ValueError\<close> for a channel outside
  0..15 and for a data byte (note, velocity, program) outside 0..127, the constructor of
  a tempo message for a tempo outside 0..16777215.
\<close>

datatype error = ValueError

definition valid_channel :: "int \<Rightarrow> bool" where
  "valid_channel ch = (0 \<le> ch \<and> ch \<le> 15)"

definition valid_data_byte :: "int \<Rightarrow> bool" where
  "valid_data_byte b = (0 \<le> b \<and> b \<le> 127)"

definition valid_tempo :: "int \<Rightarrow> bool" where
  "valid_tempo tp = (0 \<le> tp \<and> tp \<le> 16777215)"

record gen_state =
  events_by_ch :: "(int \<times> (int \<times> msg) list) list"
  active_until :: "(int \<times> int) list"
  last_note :: "(int \<times> int) list"

definition gen_init :: gen_state where
  "gen_init = \<lparr>events_by_ch = [], active_until = [], last_note = []\<rparr>"

text \<open>\<^verbatim>\<open>sum(1 for end in active_until.values() if end > abs_tick)\<close>\<close>

definition global_active_at :: "gen_state \<Rightarrow> int \<Rightarrow> int" where
  "global_active_at s abs_tick = int (length (filter (\<lambda>p. snd p > abs_tick) (active_until s)))"

text \<open>\<^verbatim>\<open>active_until.get(ch, 0) > abs_tick\<close>\<close>

definition ch_busy_at :: "gen_state \<Rightarrow> int \<Rightarrow> int \<Rightarrow> bool" where
  "ch_busy_at s ch abs_tick = (dict_get (active_until s) ch 0 > abs_tick)"

text \<open>The three writes of an onset: the last note, the two events, the busy-until tick.\<close>

definition emit_note :: "gen_state \<Rightarrow> int \<Rightarrow> int \<Rightarrow> int \<Rightarrow> int \<Rightarrow> gen_state" where
  "emit_note s ch abs_tick dur_ticks n =
     s\<lparr>last_note := dict_set ch n (last_note s),
       events_by_ch :=
         dict_set ch
           (dict_get (events_by_ch s) ch [] @
              [(abs_tick, Note_on ch n 96 0), (abs_tick + dur_ticks, Note_off ch n 0 0)])
           (events_by_ch s),
       active_until := dict_set ch (abs_tick + dur_ticks) (active_until s)\<rparr>"

text \<open>The choice of the length in steps, by the number of busy voices.\<close>

definition choose_dur_steps :: "int \<Rightarrow> rng \<Rightarrow> int \<times> rng" where
  "choose_dur_steps global_active g =
     (if global_active \<ge> MAX_GLOBAL_POLY - 1 then random_choices [1, 2] [0.9, 0.1] g
      else random_choices [1, 2, 4] [0.6, 0.3, 0.1] g)"

text \<open>
  The body of the loop \<^verbatim>\<open>for step in range(steps)\<close>. The draw for the onset is only
  made when the voice is free and the ceiling is not reached, as \<^verbatim>\<open>and\<close> evaluates.
\<close>

definition gen_step ::
  "(int \<times> trans) list \<Rightarrow> (int \<times> int list) list \<Rightarrow> int list \<Rightarrow>
     gen_state \<times> rng \<Rightarrow> nat \<Rightarrow> error + gen_state \<times> rng" where
  "gen_step models fallback_notes channels sg step =
     (let (s, g) = sg;
          abs_tick = int step * GRID;
          global_active = global_active_at s abs_tick;
          ch = channels ! (step mod length channels);
          ch_busy = ch_busy_at s ch abs_tick
      in if ch_busy \<or> \<not> global_active < MAX_GLOBAL_POLY then Inr (s, g)
         else (let (u, g1) = random_random g
               in if \<not> u < ONSET_PROB then Inr (s, g1)
                  else (let (dur_steps, g2) = choose_dur_steps global_active g1;
                            dur_ticks = dur_steps * GRID;
                            model = dict_get models ch [];
                            prev = map_of (last_note s) ch;
                            (n, g3) = choose_note (dict_get model prev []) prev
                                        (dict_get fallback_notes ch []) g2
                        in if valid_channel ch \<and> valid_data_byte n
                           then Inr (emit_note s ch abs_tick dur_ticks n, g3)
                           else Inl ValueError)))"

fun gen_loop ::
  "(int \<times> trans) list \<Rightarrow> (int \<times> int list) list \<Rightarrow> int list \<Rightarrow>
     nat list \<Rightarrow> gen_state \<times> rng \<Rightarrow> error + gen_state \<times> rng" where
  "gen_loop models fallback_notes channels [] sg = Inr sg"
| "gen_loop models fallback_notes channels (step # steps) sg =
     (case gen_step models fallback_notes channels sg step of
        Inl e \<Rightarrow> Inl e
      | Inr sg' \<Rightarrow> gen_loop models fallback_notes channels steps sg')"

text \<open>The voices by activity: the stable sort on \<^verbatim>\<open>-len\<close>, the first \<^verbatim>\<open>MAX_CHANNELS\<close>.\<close>

definition select_channels :: "seqs \<Rightarrow> int list" where
  "select_channels sq =
     (let channel_activity = sort_key (\<lambda>kv. - int (length (snd kv))) sq;
          channels = map fst (take (nat MAX_CHANNELS) channel_activity)
      in if channels = [] then [0, 1, 2, 3] else channels)"

text \<open>\<^verbatim>\<open>{ch: [n for n, _ in seqs[ch]] for ch in seqs}\<close>\<close>

definition fallback_pool :: "seqs \<Rightarrow> (int \<times> int list) list" where
  "fallback_pool sq =
     foldl (\<lambda>d ch. dict_set ch (map fst (dict_get sq ch [])) d) [] (map fst sq)"

definition step_count :: "int \<Rightarrow> nat" where
  "step_count tpb = nat ((BARS * 4 * tpb) div GRID)"

definition generate_events ::
  "(int \<times> trans) list \<Rightarrow> seqs \<Rightarrow> (int \<times> int) list \<Rightarrow> int \<Rightarrow> int \<Rightarrow> rng \<Rightarrow>
     error + ((int \<times> (int \<times> msg) list) list \<times> int list) \<times> rng" where
  "generate_events models sq programs tpb tempo g =
     (let channels = select_channels sq
      in case gen_loop models (fallback_pool sq) channels [0..<step_count tpb] (gen_init, g) of
           Inl e \<Rightarrow> Inl e
         | Inr (s, g') \<Rightarrow> Inr ((events_by_ch s, channels), g'))"

text \<open>
  The events of a voice are well paired when they are note starts each followed by its
  note end, on the same channel and pitch, the end 1, 2 or 4 grid steps after the start.
\<close>

definition note_pair :: "int \<times> msg \<Rightarrow> int \<times> msg \<Rightarrow> bool" where
  "note_pair e1 e2 =
     (case (snd e1, snd e2) of
        (Note_on ch n vel t, Note_off ch' n' vel' t') \<Rightarrow>
          ch' = ch \<and> n' = n \<and> fst e1 < fst e2 \<and>
          fst e2 - fst e1 \<in> {GRID, 2 * GRID, 4 * GRID}
      | _ \<Rightarrow> False)"

fun well_paired :: "(int \<times> msg) list \<Rightarrow> bool" where
  "well_paired [] = True"
| "well_paired [e] = False"
| "well_paired (e1 # e2 # evs) = (note_pair e1 e2 \<and> well_paired evs)"

text \<open>
  The state of a voice is in order when its events are well paired, their ticks never
  decrease along the list, and none lies after the voice's busy-until tick.
\<close>

definition voice_inv :: "gen_state \<Rightarrow> int \<Rightarrow> bool" where
  "voice_inv s c =
     (let evs = dict_get (events_by_ch s) c []
      in sorted (map fst evs) \<and> well_paired evs \<and>
         list_all (\<lambda>e. fst e \<le> dict_get (active_until s) c 0) evs)"






section \<open>Output assembly: \<^verbatim>\<open>write_midi\<close>\<close>

text \<open>The loop that turns absolute ticks into delta times.\<close>

fun delta_msgs :: "int \<Rightarrow> (int \<times> msg) list \<Rightarrow> msg list" where
  "delta_msgs prev_tick [] = []"
| "delta_msgs prev_tick ((atick, m) # evs) =
     set_msg_time m (max 0 (atick - prev_tick)) # delta_msgs atick evs"

definition make_track ::
  "(int \<times> (int \<times> msg) list) list \<Rightarrow> (int \<times> int) list \<Rightarrow> int \<Rightarrow> error + msg list" where
  "make_track evs_by_ch programs ch =
     (let prog = dict_get programs ch 6
      in if \<not> (valid_channel ch \<and> valid_data_byte prog) then Inl ValueError
         else (let tr = [Program_change ch prog 0];
                   evs = dict_get evs_by_ch ch []
               in if evs = [] then Inr tr
                  else Inr (tr @ delta_msgs 0 (sort_key fst evs))))"

fun make_tracks ::
  "(int \<times> (int \<times> msg) list) list \<Rightarrow> (int \<times> int) list \<Rightarrow> int list \<Rightarrow> error + msg list list" where
  "make_tracks evs_by_ch programs [] = Inr []"
| "make_tracks evs_by_ch programs (ch # chs) =
     (case make_track evs_by_ch programs ch of
        Inl e \<Rightarrow> Inl e
      | Inr tr \<Rightarrow>
          (case make_tracks evs_by_ch programs chs of
             Inl e \<Rightarrow> Inl e
           | Inr trs \<Rightarrow> Inr (tr # trs)))"

text \<open>The file handed to \<^verbatim>\<open>mid.save\<close>; saving itself is outside the model.\<close>

definition write_midi ::
  "(int \<times> (int \<times> msg) list) list \<Rightarrow> int list \<Rightarrow> (int \<times> int) list \<Rightarrow> int \<Rightarrow> int \<Rightarrow>
     error + midi_file" where
  "write_midi evs_by_ch channels programs tpb tempo =
     (case make_tracks evs_by_ch programs (sort channels) of
        Inl e \<Rightarrow> Inl e
      | Inr [] \<Rightarrow> Inr \<lparr>ticks_per_beat = tpb, tracks = []\<rparr>
      | Inr (tr # trs) \<Rightarrow>
          (if valid_tempo tempo
           then Inr \<lparr>ticks_per_beat = tpb, tracks = (Set_tempo tempo 0 # tr) # trs\<rparr>
           else Inl ValueError))"

section \<open>The pipeline: \<^verbatim>\<open>load_midis\<close> and \<^verbatim>\<open>main\<close>\<close>

text \<open>
  The file system is a directory listing in the order the operating system gives it
  (\<open>None\<close> when the folder is not a directory) and a parser that gives the file of a name
  or fails. Names are ASCII strings.
\<close>

definition lower_char :: "char \<Rightarrow> char" where
  "lower_char c =
     (if CHR ''A'' \<le> c \<and> c \<le> CHR ''Z'' then char_of (of_char c + (32::nat)) else c)"

definition endswith :: "string \<Rightarrow> string \<Rightarrow> bool" where
  "endswith s suf = (length suf \<le> length s \<and> drop (length s - length suf) s = suf)"

definition is_midi_name :: "string \<Rightarrow> bool" where
  "is_midi_name name =
     (endswith (map lower_char name) ''.mid'' \<or> endswith (map lower_char name) ''.midi'')"

definition load_midis :: "(string \<Rightarrow> midi_file option) \<Rightarrow> string list option \<Rightarrow> midi_file list" where
  "load_midis parse listing =
     (case listing of
        None \<Rightarrow> []
      | Some names \<Rightarrow>
          concat (map (\<lambda>name. if is_midi_name name
                               then (case parse name of Some mid \<Rightarrow> [mid] | None \<Rightarrow> [])
                               else [])
                    (sort names)))"

text \<open>
  The run from the loaded files on: \<open>None\<close> is the early return with nothing written,
  \<open>Some\<close> holds the written file or the error raised on the way.
\<close>

definition run_pipeline :: "midi_file list \<Rightarrow> rng \<Rightarrow> (error + midi_file) option" where
  "run_pipeline mids g =
     (if mids = [] then None
      else (let (sq, programs, tpb, tempo) = extract_sequences mids;
                models = build_markov_models sq
            in case generate_events models sq programs tpb tempo g of
                 Inl e \<Rightarrow> Some (Inl e)
               | Inr ((evs_by_ch, channels), g') \<Rightarrow>
                   Some (write_midi evs_by_ch channels programs tpb tempo)))"

definition main :: "(string \<Rightarrow> midi_file option) \<Rightarrow> string list option \<Rightarrow> rng \<Rightarrow>
     (error + midi_file) option" where
  "main parse listing g = run_pipeline (load_midis parse listing) g"

section \<open>Facts about dictionaries\<close>

lemma map_of_dict_set: "map_of (dict_set k v d) = (map_of d)(k \<mapsto> v)"
  by (induction d) (auto simp: fun_eq_iff)

lemma keys_dict_set:
  "map fst (dict_set k v d) = (if k \<in> fst ` set d then map fst d else map fst d @ [k])"
  by (induction d) auto

lemma distinct_dict_set: "distinct (map fst d) \<Longrightarrow> distinct (map fst (dict_set k v d))"
  by (simp add: keys_dict_set)

lemma dict_set_nonempty: "dict_set k v d \<noteq> []"
  by (cases d) auto


lemma list_all_dict_set: "list_all P d \<Longrightarrow> P (k, v) \<Longrightarrow> list_all P (dict_set k v d)"
  by (induction d) auto

lemma dict_get_dict_set:
  "dict_get (dict_set k v d) k' dflt = (if k' = k then v else dict_get d k' dflt)"
  by (simp add: dict_get_def map_of_dict_set)

lemma dict_get_mem: "dict_get d k dflt \<noteq> dflt \<Longrightarrow> (k, dict_get d k dflt) \<in> set d"
  by (auto simp: dict_get_def split: option.splits dest: map_of_SomeD)


section \<open>Facts about the table builder\<close>

lemma trans_count_incr:
  "trans_count (trans_incr t a b) x y = trans_count t x y + (if x = a \<and> y = b then 1 else 0)"
  by (simp add: trans_count_def trans_incr_def Let_def dict_get_dict_set)

lemma counter_ok_bump:
  assumes "c = [] \<or> counter_ok c"
  shows "counter_ok (dict_set b (dict_get c b 0 + 1) c)"
proof -
  have d: "distinct (map fst c)" and p: "list_all (\<lambda>p. 0 < snd p) c"
    using assms by (auto simp: counter_ok_def)
  show ?thesis
    unfolding counter_ok_def
    by (simp add: dict_set_nonempty distinct_dict_set d list_all_dict_set p)
qed

lemma trans_ok_incr:
  assumes "trans_ok t"
  shows "trans_ok (trans_incr t a b)"
proof -
  let ?c = "dict_get t (Some a) []"
  have "?c = [] \<or> counter_ok ?c"
  proof (cases "?c = []")
    case False
    then have "(Some a, ?c) \<in> set t" by (rule dict_get_mem)
    with assms show ?thesis by (auto simp: trans_ok_def list_all_iff)
  qed simp
  then have "counter_ok (dict_set b (dict_get ?c b 0 + 1) ?c)" by (rule counter_ok_bump)
  with assms show ?thesis
    by (simp add: trans_ok_def trans_incr_def Let_def distinct_dict_set list_all_dict_set)
qed

lemma foldl_incr_count:
  "trans_count (foldl (\<lambda>tr i. trans_incr tr (f i) (g i)) t is) a b =
     trans_count t a b + length (filter (\<lambda>i. f i = a \<and> g i = b) is)"
  by (induction "is" arbitrary: t) (simp_all add: trans_count_incr)

lemma foldl_incr_ok:
  "trans_ok t \<Longrightarrow> trans_ok (foldl (\<lambda>tr i. trans_incr tr (f i) (g i)) t is)"
  by (induction "is" arbitrary: t) (simp_all add: trans_ok_incr)

lemma build_trans_count: "trans_count (build_trans arr) a b = pair_occurrences arr a b"
proof -
  have "trans_count [] a b = 0" by (simp add: trans_count_def dict_get_def)
  then show ?thesis
    unfolding build_trans_def pair_occurrences_def foldl_incr_count by simp
qed

lemma build_trans_ok: "trans_ok (build_trans arr)"
  unfolding build_trans_def by (rule foldl_incr_ok) (simp add: trans_ok_def)

lemma build_trans_short: "length arr < 2 \<Longrightarrow> build_trans arr = []"
proof -
  assume "length arr < 2"
  then have "length arr - 1 = 0" by simp
  then show ?thesis by (simp add: build_trans_def)
qed

lemma build_trans_example:
  "build_trans [(60, d1), (62, d2), (60, d3), (64, d4)] =
     [(Some 60, [(62, 1), (64, 1)]), (Some 62, [(60, 1)])]"
proof -
  have u: "[0..<3] = [0, 1, 2]" by (simp add: upt_rec)
  show ?thesis
    by (simp add: build_trans_def u trans_incr_def dict_get_def Let_def)
qed

lemma models_step:
  "map_of (foldl (\<lambda>models (ch, arr). dict_set ch (build_trans arr) models) m s) ch =
     (case map_of (rev s) ch of None \<Rightarrow> map_of m ch | Some arr \<Rightarrow> Some (build_trans arr))"
  by (induction s arbitrary: m) (auto simp: map_of_dict_set split: option.splits)

lemma build_markov_models_lookup:
  "map_of (build_markov_models seqs) ch = map_option build_trans (map_of (rev seqs) ch)"
  by (simp add: build_markov_models_def models_step split: option.splits)

section \<open>Transition table construction\<close>

text \<open>
  Claim C5. For every voice sequence \<open>arr\<close> the table built for it stores, for every pair
  of pitches \<open>a\<close>, \<open>b\<close>, exactly the number of positions \<open>i\<close> with \<open>arr[i]\<close> of pitch \<open>a\<close>
  and \<open>arr[i+1]\<close> of pitch \<open>b\<close>, and it holds nothing else: no key twice, no key
  \<^verbatim>\<open>None\<close>, no empty counter and no zero count. A sequence of fewer than two notes gives
  the empty table. The pitch sequence 60, 62, 60, 64 gives the table
  \<^verbatim>\<open>{60: {62: 1, 64: 1}, 62: {60: 1}}\<close>, whatever the durations. The model of a voice
  is the table of that voice's sequence.
\<close>

theorem build_markov_models_table:
  "(\<forall>a b. trans_count (build_trans arr) a b = pair_occurrences arr a b)
   \<and> trans_ok (build_trans arr)
   \<and> (length arr < 2 \<longrightarrow> build_trans arr = [])
   \<and> build_trans [(60, d1), (62, d2), (60, d3), (64, d4)] =
       [(Some 60, [(62, 1), (64, 1)]), (Some 62, [(60, 1)])]
   \<and> map_of (build_markov_models seqs) ch = map_option build_trans (map_of (rev seqs) ch)"
  using build_trans_count build_trans_ok build_trans_short build_trans_example
    build_markov_models_lookup by blast

theorem build_markov_models_table_witness:
  "length [(60::int, 480::int)] < 2 \<and> build_trans [(60, 480)] = []
   \<and> trans_count (build_trans [(60, 1), (62, 1), (60, 1), (64, 1)]) 60 64 = 1
   \<and> pair_occurrences [(60, 1), (62, 1), (60, 1), (64, 1)] 60 64 = 1"
proof -
  have u: "[0..<3] = [0, 1, 2]" by (simp add: upt_rec)
  have "pair_occurrences [(60, 1), (62, 1), (60, 1), (64, 1)] 60 64 = 1"
    by (simp add: pair_occurrences_def u)
  then show ?thesis
    using build_markov_models_table [of "[(60, 480)]" 0 0 0 0 "[]" 0]
      build_markov_models_table [of "[(60, 1), (62, 1), (60, 1), (64, 1)]" 0 0 0 0 "[]" 0]
    by simp
qed

section \<open>Facts about the extraction\<close>

lemma seq_extends_iff:
  "seq_extends fb old new = (\<exists>x. new = old @ x \<and> list_all (\<lambda>p. 0 < snd p \<or> snd p = fb) x)"
proof
  assume "seq_extends fb old new"
  then have "new = old @ drop (length old) new \<and>
      list_all (\<lambda>p. 0 < snd p \<or> snd p = fb) (drop (length old) new)"
    unfolding seq_extends_def by (metis append_take_drop_id)
  then show "\<exists>x. new = old @ x \<and> list_all (\<lambda>p. 0 < snd p \<or> snd p = fb) x" by blast
next
  assume "\<exists>x. new = old @ x \<and> list_all (\<lambda>p. 0 < snd p \<or> snd p = fb) x"
  then show "seq_extends fb old new" by (auto simp: seq_extends_def)
qed

lemma seq_extends_refl: "seq_extends fb xs xs"
  by (simp add: seq_extends_def)

lemma seq_extends_trans:
  "seq_extends fb a b \<Longrightarrow> seq_extends fb b c \<Longrightarrow> seq_extends fb a c"
  unfolding seq_extends_iff by auto

lemma seq_extends_snoc: "0 < d \<or> d = fb \<Longrightarrow> seq_extends fb xs (xs @ [(n, d)])"
  by (simp add: seq_extends_def)

lemma note_end_tpb: "tpb_of (note_end s abs_t ch n) = tpb_of s"
  by (simp add: note_end_def Let_def split: option.splits)

lemma scan_msg_tpb: "tpb_of (scan_msg s e) = tpb_of s"
  by (cases "(s, e)" rule: scan_msg.cases) (simp_all add: note_end_tpb)

lemma foldl_scan_msg_tpb: "tpb_of (foldl scan_msg s es) = tpb_of s"
  by (induction es arbitrary: s) (simp_all add: scan_msg_tpb)




lemma note_end_extends:
  "seq_extends (tpb_of s div 4) (dict_get (seqs_of s) c [])
     (dict_get (seqs_of (note_end s abs_t ch n)) c [])"
  by (simp add: note_end_def Let_def dict_get_dict_set seq_extends_refl seq_extends_snoc
      split: option.splits)

lemma scan_msg_extends:
  "seq_extends (tpb_of s div 4) (dict_get (seqs_of s) c [])
     (dict_get (seqs_of (scan_msg s e)) c [])"
  by (cases "(s, e)" rule: scan_msg.cases) (simp_all add: note_end_extends seq_extends_refl)

lemma foldl_scan_msg_extends:
  "seq_extends (tpb_of s div 4) (dict_get (seqs_of s) c [])
     (dict_get (seqs_of (foldl scan_msg s es)) c [])"
proof (induction es arbitrary: s)
  case Nil
  show ?case by (simp add: seq_extends_refl)
next
  case (Cons e es)
  have "seq_extends (tpb_of s div 4) (dict_get (seqs_of (scan_msg s e)) c [])
          (dict_get (seqs_of (foldl scan_msg (scan_msg s e) es)) c [])"
    using Cons.IH [of "scan_msg s e"] by (simp add: scan_msg_tpb)
  with scan_msg_extends [of s c e] show ?case
    by (auto intro: seq_extends_trans)
qed

lemma scan_file_extends:
  "seq_extends (tpb_of (scan_file s mid) div 4) (dict_get (seqs_of s) c [])
     (dict_get (seqs_of (scan_file s mid)) c [])"
proof -
  let ?s1 = "s\<lparr>tpb_of := (if ticks_per_beat mid \<noteq> 0 then ticks_per_beat mid else tpb_of s),
          active_of := []\<rparr>"
  have "seq_extends (tpb_of ?s1 div 4) (dict_get (seqs_of ?s1) c [])
     (dict_get (seqs_of (foldl scan_msg ?s1 (file_events mid))) c [])"
    by (rule foldl_scan_msg_extends)
  then show ?thesis by (simp add: scan_file_def foldl_scan_msg_tpb)
qed

text \<open>
  From 4 ticks per beat on, the fallback is positive, and so is every duration recorded
  while the file is processed.
\<close>

lemma scan_file_positive:
  assumes "4 \<le> tpb_of (scan_file s mid)"
  shows "list_all (\<lambda>p. 0 < snd p)
           (drop (length (dict_get (seqs_of s) c [])) (dict_get (seqs_of (scan_file s mid)) c []))"
proof -
  have "0 < tpb_of (scan_file s mid) div 4" using assms by simp
  then show ?thesis
    using scan_file_extends [of s mid c] by (auto simp: seq_extends_def list_all_iff)
qed

lemmas extract_unfold =
  extract_sequences_def extract_run_def extract_init_def scan_file_def file_events_def
  note_end_def dict_get_def dict_pop_def Let_def

section \<open>Duration fallback\<close>

text \<open>
  Claim C6, at the input where the code departs from it. A file with 2 ticks per beat
  whose only track starts the pitch 60 on channel 0 and ends it at the same tick: the
  measured duration is 0, the fallback is \<open>2 div 4 = 0\<close>, and the note is recorded with
  the duration 0. The claim says that no recorded duration is zero or negative for any
  positive ticks-per-beat.
\<close>

theorem extract_sequences_zero_duration:
  "extract_sequences
     [\<lparr>ticks_per_beat = 2, tracks = [[Note_on 0 60 64 0, Note_off 0 60 0 0]]\<rparr>] =
   ([(0, [(60, 0)])], [], 2, 500000)"
  by (simp add: extract_unfold)

section \<open>The ticks-per-beat of several files\<close>



section \<open>Facts about the generation loop\<close>

lemma GRID_pos: "0 < GRID"
  by (simp add: GRID_def)

lemma length_accumulate: "length (accumulate a ws) = length ws"
  by (induction ws arbitrary: a) simp_all

lemma random_choices_mem:
  assumes "population \<noteq> []" and "length weights = length population"
  shows "fst (random_choices population weights g) \<in> set population"
proof -
  let ?cum = "accumulate 0 weights"
  let ?i = "length (takeWhile (\<lambda>c. c \<le> g 0 * last ?cum) (butlast ?cum))"
  have "?i \<le> length (butlast ?cum)" by (rule length_takeWhile_le)
  also have "\<dots> = length population - 1" by (simp add: length_accumulate assms)
  also have "\<dots> < length population" using assms by (cases population) simp_all
  finally have "population ! ?i \<in> set population" by simp
  then show ?thesis
    by (simp add: random_choices_def random_random_def Let_def)
qed

lemma choose_dur_steps_mem:
  "fst (choose_dur_steps ga g) \<in> (if ga \<ge> MAX_GLOBAL_POLY - 1 then {1, 2} else {1, 2, 4})"
proof (cases "ga \<ge> MAX_GLOBAL_POLY - 1")
  case True
  have "fst (random_choices [1, 2::int] [0.9, 0.1] g) \<in> set [1, 2]"
    by (rule random_choices_mem) simp_all
  with True show ?thesis by (simp add: choose_dur_steps_def)
next
  case False
  have "fst (random_choices [1, 2, 4::int] [0.6, 0.3, 0.1] g) \<in> set [1, 2, 4]"
    by (rule random_choices_mem) simp_all
  with False show ?thesis by (simp add: choose_dur_steps_def)
qed

text \<open>A step either leaves the state as it is or emits one note on the voice of the step.\<close>

lemma gen_step_cases:
  assumes "gen_step M F C (s, g) k = Inr (s', g')"
  shows "s' = s \<or>
    (\<exists>d n g2. \<not> ch_busy_at s (C ! (k mod length C)) (int k * GRID)
       \<and> global_active_at s (int k * GRID) < MAX_GLOBAL_POLY
       \<and> d \<in> (if global_active_at s (int k * GRID) \<ge> MAX_GLOBAL_POLY - 1
               then {1, 2} else {1, 2, 4})
       \<and> n = fst (choose_note
                   (dict_get (dict_get M (C ! (k mod length C)) [])
                      (map_of (last_note s) (C ! (k mod length C))) [])
                   (map_of (last_note s) (C ! (k mod length C)))
                   (dict_get F (C ! (k mod length C)) []) g2)
       \<and> s' = emit_note s (C ! (k mod length C)) (int k * GRID) (d * GRID) n)"
proof -
  let ?t = "int k * GRID"
  let ?ch = "C ! (k mod length C)"
  let ?ga = "global_active_at s ?t"
  show ?thesis
  proof (cases "ch_busy_at s ?ch ?t \<or> \<not> ?ga < MAX_GLOBAL_POLY")
    case True
    with assms show ?thesis by (simp add: gen_step_def Let_def)
  next
    case free: False
    obtain u g1 where r: "random_random g = (u, g1)" by (cases "random_random g")
    show ?thesis
    proof (cases "u < ONSET_PROB")
      case False
      with assms free r show ?thesis by (simp add: gen_step_def Let_def)
    next
      case True
      obtain d g2 where c: "choose_dur_steps ?ga g1 = (d, g2)"
        by (cases "choose_dur_steps ?ga g1")
      obtain n g3 where
        n: "choose_note (dict_get (dict_get M ?ch []) (map_of (last_note s) ?ch) [])
              (map_of (last_note s) ?ch) (dict_get F ?ch []) g2 = (n, g3)"
        by (cases "choose_note (dict_get (dict_get M ?ch []) (map_of (last_note s) ?ch) [])
              (map_of (last_note s) ?ch) (dict_get F ?ch []) g2")
      have d: "d \<in> (if ?ga \<ge> MAX_GLOBAL_POLY - 1 then {1, 2} else {1, 2, 4})"
        using choose_dur_steps_mem [of ?ga g1] c by simp
      have "s' = emit_note s ?ch ?t (d * GRID) n"
        using assms free r True c n by (simp add: gen_step_def Let_def split: if_splits)
      moreover have "n = fst (choose_note (dict_get (dict_get M ?ch []) (map_of (last_note s) ?ch) [])
              (map_of (last_note s) ?ch) (dict_get F ?ch []) g2)"
        using n by simp
      ultimately show ?thesis using free d by blast
    qed
  qed
qed

lemma gen_loop_append:
  "gen_loop M F C (xs @ ys) sg =
     (case gen_loop M F C xs sg of Inl e \<Rightarrow> Inl e | Inr sg' \<Rightarrow> gen_loop M F C ys sg')"
  by (induction xs arbitrary: sg) (simp_all split: sum.splits)

lemma gen_loop_Suc:
  assumes "gen_loop M F C [0..<Suc n] sg = Inr (s, g')"
  shows "\<exists>s0 g0. gen_loop M F C [0..<n] sg = Inr (s0, g0) \<and>
           gen_step M F C (s0, g0) n = Inr (s, g')"
proof -
  have "gen_loop M F C ([0..<n] @ [n]) sg = Inr (s, g')" using assms by simp
  then show ?thesis
    unfolding gen_loop_append by (auto split: sum.splits)
qed

lemma filter_dict_set_le: "length (filter P (dict_set k v d)) \<le> Suc (length (filter P d))"
  by (induction d) auto

lemma global_active_emit:
  "global_active_at (emit_note s ch t dt n) t' \<le> global_active_at s t' + 1"
  using filter_dict_set_le [of "\<lambda>p. snd p > t'" ch "t + dt" "active_until s"]
  by (simp add: global_active_at_def emit_note_def)

lemma global_active_antitone:
  assumes "t \<le> t'"
  shows "global_active_at s t' \<le> global_active_at s t"
proof -
  have "filter (\<lambda>p. snd p > t') (active_until s)
      = filter (\<lambda>p. snd p > t') (filter (\<lambda>p. snd p > t) (active_until s))"
    using assms by (auto intro: filter_cong)
  then have "length (filter (\<lambda>p. snd p > t') (active_until s))
      \<le> length (filter (\<lambda>p. snd p > t) (active_until s))"
    by (metis length_filter_le)
  then show ?thesis by (simp add: global_active_at_def)
qed

lemma global_active_init: "global_active_at gen_init t = 0"
  by (simp add: global_active_at_def gen_init_def)

lemma gen_step_gate:
  assumes step: "gen_step M F C (s, g) k = Inr (s', g')" and changed: "s' \<noteq> s"
  shows "\<not> ch_busy_at s (C ! (k mod length C)) (int k * GRID)
     \<and> global_active_at s (int k * GRID) < MAX_GLOBAL_POLY
     \<and> global_active_at s' (int k * GRID) \<le> global_active_at s (int k * GRID) + 1"
  using gen_step_cases [OF step] changed global_active_emit by auto

lemma gen_step_ceiling:
  assumes step: "gen_step M F C (s, g) k = Inr (s', g')"
    and before: "\<forall>t \<ge> int k * GRID. global_active_at s t \<le> MAX_GLOBAL_POLY"
    and t: "int k * GRID \<le> t"
  shows "global_active_at s' t \<le> MAX_GLOBAL_POLY"
proof (cases "s' = s")
  case True
  with before t show ?thesis by simp
next
  case False
  with gen_step_cases [OF step] obtain d n where
    gate: "global_active_at s (int k * GRID) < MAX_GLOBAL_POLY" and
    s': "s' = emit_note s (C ! (k mod length C)) (int k * GRID) (d * GRID) n"
    by blast
  have "global_active_at s' t \<le> global_active_at s t + 1"
    unfolding s' by (rule global_active_emit)
  also have "\<dots> \<le> global_active_at s (int k * GRID) + 1"
    using global_active_antitone [OF t, of s] by simp
  also have "\<dots> \<le> MAX_GLOBAL_POLY" using gate by simp
  finally show ?thesis .
qed

lemma gen_loop_ceiling:
  "gen_loop M F C [0..<n] (gen_init, g) = Inr (s, g') \<Longrightarrow> (int n - 1) * GRID \<le> t \<Longrightarrow>
     global_active_at s t \<le> MAX_GLOBAL_POLY"
proof (induction n arbitrary: s g' t)
  case 0
  then show ?case by (simp add: global_active_init MAX_GLOBAL_POLY_def)
next
  case (Suc n)
  from gen_loop_Suc [OF Suc.prems(1)] obtain s0 g0 where
    pre: "gen_loop M F C [0..<n] (gen_init, g) = Inr (s0, g0)" and
    step: "gen_step M F C (s0, g0) n = Inr (s, g')"
    by blast
  have before: "\<forall>t \<ge> int n * GRID. global_active_at s0 t \<le> MAX_GLOBAL_POLY"
  proof (intro allI impI)
    fix u assume "int n * GRID \<le> u"
    moreover have "(int n - 1) * GRID \<le> int n * GRID"
      using GRID_pos by (simp add: left_diff_distrib)
    ultimately have "(int n - 1) * GRID \<le> u" by linarith
    then show "global_active_at s0 u \<le> MAX_GLOBAL_POLY" by (rule Suc.IH [OF pre])
  qed
  from Suc.prems(2) have "int n * GRID \<le> t" by simp
  with step before show ?case by (rule gen_step_ceiling)
qed

lemma well_paired_snoc2: "well_paired xs \<Longrightarrow> well_paired (xs @ [a, b]) = note_pair a b"
  by (induction xs rule: well_paired.induct) simp_all

lemma note_pair_emit:
  "d \<in> {1, 2, 4} \<Longrightarrow> note_pair (t, Note_on ch n v 0) (t + d * GRID, Note_off ch n v' 0)"
  using GRID_pos by (auto simp: note_pair_def)

lemma emit_note_events:
  "dict_get (events_by_ch (emit_note s ch t dt n)) c [] =
     (if c = ch
      then dict_get (events_by_ch s) ch [] @ [(t, Note_on ch n 96 0), (t + dt, Note_off ch n 0 0)]
      else dict_get (events_by_ch s) c [])"
  by (simp add: emit_note_def dict_get_dict_set)

lemma emit_note_until:
  "dict_get (active_until (emit_note s ch t dt n)) c 0 =
     (if c = ch then t + dt else dict_get (active_until s) c 0)"
  by (simp add: emit_note_def dict_get_dict_set)

lemma voice_inv_emit:
  assumes inv: "voice_inv s c" and free: "\<not> ch_busy_at s ch t" and d: "d \<in> {1, 2, 4}"
  shows "voice_inv (emit_note s ch t (d * GRID) n) c"
proof (cases "c = ch")
  case False
  with inv show ?thesis
    by (simp add: voice_inv_def Let_def emit_note_events emit_note_until)
next
  case True
  let ?evs = "dict_get (events_by_ch s) ch []"
  have pos: "0 < d * GRID" using d GRID_pos by auto
  have until: "dict_get (active_until s) ch 0 \<le> t"
    using free by (simp add: ch_busy_at_def)
  have sorted: "sorted (map fst ?evs)" and paired: "well_paired ?evs"
    and le: "list_all (\<lambda>e. fst e \<le> dict_get (active_until s) ch 0) ?evs"
    using inv True by (simp_all add: voice_inv_def Let_def)
  have le_t: "\<forall>e \<in> set ?evs. fst e \<le> t"
    using le until by (auto simp: list_all_iff)
  have "sorted (map fst (?evs @ [(t, Note_on ch n 96 0), (t + d * GRID, Note_off ch n 0 0)]))"
    using sorted le_t pos by (auto simp: sorted_append)
  moreover have "well_paired (?evs @ [(t, Note_on ch n 96 0), (t + d * GRID, Note_off ch n 0 0)])"
    using paired d by (simp add: well_paired_snoc2 note_pair_emit)
  moreover have "list_all (\<lambda>e. fst e \<le> t + d * GRID)
      (?evs @ [(t, Note_on ch n 96 0), (t + d * GRID, Note_off ch n 0 0)])"
    using le_t pos by (auto simp: list_all_iff)
  ultimately show ?thesis
    using True by (simp add: voice_inv_def Let_def emit_note_events emit_note_until)
qed

lemma gen_step_voice_inv:
  assumes step: "gen_step M F C (s, g) k = Inr (s', g')" and inv: "voice_inv s c"
  shows "voice_inv s' c"
proof (cases "s' = s")
  case True
  with inv show ?thesis by simp
next
  case False
  with gen_step_cases [OF step] obtain d n where
    free: "\<not> ch_busy_at s (C ! (k mod length C)) (int k * GRID)" and
    d: "d \<in> {1, 2, 4}" and
    s': "s' = emit_note s (C ! (k mod length C)) (int k * GRID) (d * GRID) n"
    by (auto split: if_splits)
  show ?thesis unfolding s' using inv free d by (rule voice_inv_emit)
qed

lemma voice_inv_init: "voice_inv gen_init c"
  by (simp add: voice_inv_def gen_init_def dict_get_def)

lemma gen_loop_voice_inv:
  "gen_loop M F C steps (s, g) = Inr (s', g') \<Longrightarrow> voice_inv s c \<Longrightarrow> voice_inv s' c"
proof (induction steps arbitrary: s g)
  case Nil
  then show ?case by simp
next
  case (Cons k steps)
  from Cons.prems(1) obtain s1 g1 where
    step: "gen_step M F C (s, g) k = Inr (s1, g1)" and
    rest: "gen_loop M F C steps (s1, g1) = Inr (s', g')"
    by (auto split: sum.splits)
  have "voice_inv s1 c" using step Cons.prems(2) by (rule gen_step_voice_inv)
  with rest show ?case by (rule Cons.IH)
qed

lemma gen_step_others:
  assumes step: "gen_step M F C (s, g) k = Inr (s', g')" and other: "c \<noteq> C ! (k mod length C)"
  shows "dict_get (events_by_ch s') c [] = dict_get (events_by_ch s) c []
     \<and> map_of (active_until s') c = map_of (active_until s) c
     \<and> map_of (last_note s') c = map_of (last_note s) c"
  using gen_step_cases [OF step] other
  by (auto simp: emit_note_def dict_get_dict_set map_of_dict_set)

lemma gen_step_busy:
  assumes step: "gen_step M F C (s, g) k = Inr (s', g')"
    and busy: "ch_busy_at s (C ! (k mod length C)) (int k * GRID)"
  shows "s' = s"
  using gen_step_cases [OF step] busy by auto

lemma select_channels_nonempty: "select_channels sq \<noteq> []"
  by (simp add: select_channels_def Let_def)

lemma select_channels_current:
  "select_channels sq ! (k mod length (select_channels sq)) \<in> set (select_channels sq)"
  using select_channels_nonempty [of sq] by simp

lemma generate_events_loop:
  assumes "generate_events M sq P tpb tempo g = Inr ((evs, chans), g')"
  shows "\<exists>s. gen_loop M (fallback_pool sq) (select_channels sq) [0..<step_count tpb] (gen_init, g)
             = Inr (s, g') \<and> evs = events_by_ch s \<and> chans = select_channels sq"
  using assms by (auto simp: generate_events_def Let_def split: sum.splits)

lemmas gen_unfold =
  gen_step_def gen_init_def global_active_at_def ch_busy_at_def emit_note_def
  choose_dur_steps_def random_choices_def random_random_def choose_note_def dict_get_def
  valid_channel_def valid_data_byte_def GRID_def MAX_GLOBAL_POLY_def ONSET_PROB_def
  select_channels_def MAX_CHANNELS_def Let_def

section \<open>Global polyphony ceiling\<close>

text \<open>
  Claim C1. After any number \<open>n\<close> of steps of the generation loop, at the tick of the
  last step made and at every later tick, the number of voices whose busy-until tick is
  greater than the tick is at most \<open>MAX_GLOBAL_POLY\<close>. A step emits an onset only when the
  count before it, at the tick of the step, is below \<open>MAX_GLOBAL_POLY\<close>, and the count
  after the onset is at most \<open>MAX_GLOBAL_POLY\<close>.
\<close>

theorem generate_events_polyphony_ceiling:
  "(gen_loop M F (select_channels sq) [0..<n] (gen_init, g) = Inr (s, g') \<longrightarrow>
      (\<forall>t \<ge> (int n - 1) * GRID. global_active_at s t \<le> MAX_GLOBAL_POLY))
   \<and> (gen_step M F (select_channels sq) (sa, ga) k = Inr (sb, gb) \<longrightarrow> sb \<noteq> sa \<longrightarrow>
        global_active_at sa (int k * GRID) < MAX_GLOBAL_POLY
        \<and> global_active_at sb (int k * GRID) \<le> MAX_GLOBAL_POLY)"
proof (intro conjI impI allI)
  fix t
  assume "gen_loop M F (select_channels sq) [0..<n] (gen_init, g) = Inr (s, g')"
    and "(int n - 1) * GRID \<le> t"
  then show "global_active_at s t \<le> MAX_GLOBAL_POLY" by (rule gen_loop_ceiling)
next
  assume step: "gen_step M F (select_channels sq) (sa, ga) k = Inr (sb, gb)" and "sb \<noteq> sa"
  then have gate: "global_active_at sa (int k * GRID) < MAX_GLOBAL_POLY"
    and "global_active_at sb (int k * GRID) \<le> global_active_at sa (int k * GRID) + 1"
    using gen_step_gate by blast+
  then show "global_active_at sa (int k * GRID) < MAX_GLOBAL_POLY"
    and "global_active_at sb (int k * GRID) \<le> MAX_GLOBAL_POLY" by simp_all
qed

theorem generate_events_polyphony_ceiling_witness:
  "gen_loop [] [] (select_channels []) [0..<2] (gen_init, \<lambda>_. 0) =
     Inr (\<lparr>events_by_ch =
             [(0, [(0, Note_on 0 60 96 0), (240, Note_off 0 60 0 0)]),
              (1, [(240, Note_on 1 60 96 0), (480, Note_off 1 60 0 0)])],
           active_until = [(0, 240), (1, 480)],
           last_note = [(0, 60), (1, 60)]\<rparr>, \<lambda>_. 0)
   \<and> (int 2 - 1) * GRID \<le> 240
   \<and> (global_active_at
          \<lparr>events_by_ch =
             [(0, [(0, Note_on 0 60 96 0), (240, Note_off 0 60 0 0)]),
              (1, [(240, Note_on 1 60 96 0), (480, Note_off 1 60 0 0)])],
           active_until = [(0, 240), (1, 480)],
           last_note = [(0, 60), (1, 60)]\<rparr> 240 \<le> MAX_GLOBAL_POLY)
   \<and> gen_step [] [] (select_channels []) (gen_init, \<lambda>_. 0) 0 =
       Inr (\<lparr>events_by_ch = [(0, [(0, Note_on 0 60 96 0), (240, Note_off 0 60 0 0)])],
             active_until = [(0, 240)], last_note = [(0, 60)]\<rparr>, \<lambda>_. 0)
   \<and> \<lparr>events_by_ch = [(0, [(0, Note_on 0 60 96 0), (240, Note_off 0 60 0 0)])],
        active_until = [(0, 240)], last_note = [(0, 60)]\<rparr> \<noteq> gen_init
   \<and> global_active_at gen_init (int 0 * GRID) < MAX_GLOBAL_POLY"
proof -
  let ?s1 = "\<lparr>events_by_ch = [(0, [(0, Note_on 0 60 96 0), (240, Note_off 0 60 0 0)])],
        active_until = [(0, 240)], last_note = [(0, 60)]\<rparr>"
  let ?s2 = "\<lparr>events_by_ch =
             [(0, [(0, Note_on 0 60 96 0), (240, Note_off 0 60 0 0)]),
              (1, [(240, Note_on 1 60 96 0), (480, Note_off 1 60 0 0)])],
           active_until = [(0, 240), (1, 480)],
           last_note = [(0, 60), (1, 60)]\<rparr>"
  have run: "gen_loop [] [] (select_channels []) [0..<2] (gen_init, \<lambda>_. 0) = Inr (?s2, \<lambda>_. 0)"
    by (simp add: upt_rec gen_unfold)
  have step: "gen_step [] [] (select_channels []) (gen_init, \<lambda>_. 0) 0 = Inr (?s1, \<lambda>_. 0)"
    by (simp add: gen_unfold)
  have neq: "?s1 \<noteq> gen_init" by (simp add: gen_init_def)
  have tick: "(int 2 - 1) * GRID \<le> 240" by (simp add: GRID_def)
  show ?thesis
    using generate_events_polyphony_ceiling
      [of "[]" "[]" "[]" 2 "\<lambda>_. 0" ?s2 "\<lambda>_. 0" gen_init "\<lambda>_. 0" 0 ?s1 "\<lambda>_. 0"]
      run step neq tick
    by blast
qed

section \<open>Round-robin onsets\<close>

text \<open>
  Claim C3. At step \<open>k\<close> only the voice \<open>channels[k mod len(channels)]\<close>, which is one of
  the selected voices, can start a note: the events, the busy-until tick and the last
  note of every other voice are left as they are. If that voice is busy at the tick of
  the step (its busy-until tick is greater), the step changes nothing. Hence after any
  number of steps, and in the result of \<^verbatim>\<open>generate_events\<close>, the events of every voice
  are note starts each followed by its own note end, with ticks that never decrease
  along the list: every note of a voice starts at or after the end of the voice's
  previous note.
\<close>

theorem generate_events_round_robin:
  "select_channels sq ! (k mod length (select_channels sq)) \<in> set (select_channels sq)
   \<and> (gen_step M F (select_channels sq) (sa, ga) k = Inr (sb, gb) \<longrightarrow>
        (\<forall>c. c \<noteq> select_channels sq ! (k mod length (select_channels sq)) \<longrightarrow>
           dict_get (events_by_ch sb) c [] = dict_get (events_by_ch sa) c []
           \<and> map_of (active_until sb) c = map_of (active_until sa) c
           \<and> map_of (last_note sb) c = map_of (last_note sa) c)
        \<and> (ch_busy_at sa (select_channels sq ! (k mod length (select_channels sq))) (int k * GRID)
             \<longrightarrow> sb = sa))
   \<and> (gen_loop M F (select_channels sq) [0..<n] (gen_init, g) = Inr (s, g') \<longrightarrow>
        sorted (map fst (dict_get (events_by_ch s) c [])) \<and>
        well_paired (dict_get (events_by_ch s) c []))
   \<and> (generate_events M sq P tpb tempo g = Inr ((evs, chans), g') \<longrightarrow>
        sorted (map fst (dict_get evs c [])) \<and> well_paired (dict_get evs c []))"
proof (intro conjI impI allI)
  show "select_channels sq ! (k mod length (select_channels sq)) \<in> set (select_channels sq)"
    by (rule select_channels_current)
next
  fix c
  assume step: "gen_step M F (select_channels sq) (sa, ga) k = Inr (sb, gb)"
    and other: "c \<noteq> select_channels sq ! (k mod length (select_channels sq))"
  from gen_step_others [OF step other]
  show "dict_get (events_by_ch sb) c [] = dict_get (events_by_ch sa) c []"
    and "map_of (active_until sb) c = map_of (active_until sa) c"
    and "map_of (last_note sb) c = map_of (last_note sa) c" by simp_all
next
  assume "gen_step M F (select_channels sq) (sa, ga) k = Inr (sb, gb)"
    and "ch_busy_at sa (select_channels sq ! (k mod length (select_channels sq))) (int k * GRID)"
  then show "sb = sa" by (rule gen_step_busy)
next
  assume "gen_loop M F (select_channels sq) [0..<n] (gen_init, g) = Inr (s, g')"
  then have "voice_inv s c" using voice_inv_init by (rule gen_loop_voice_inv)
  then show "sorted (map fst (dict_get (events_by_ch s) c []))"
    and "well_paired (dict_get (events_by_ch s) c [])"
    by (simp_all add: voice_inv_def Let_def)
next
  assume "generate_events M sq P tpb tempo g = Inr ((evs, chans), g')"
  from generate_events_loop [OF this] obtain s where
    "gen_loop M (fallback_pool sq) (select_channels sq) [0..<step_count tpb] (gen_init, g)
       = Inr (s, g')" and evs: "evs = events_by_ch s" by blast
  then have "voice_inv s c" using voice_inv_init by (blast intro: gen_loop_voice_inv)
  then show "sorted (map fst (dict_get evs c []))" and "well_paired (dict_get evs c [])"
    by (simp_all add: voice_inv_def Let_def evs)
qed

theorem generate_events_round_robin_witness:
  "gen_step [] [] (select_channels [(0, [(60, 100)])])
     (\<lparr>events_by_ch = [(0, [(0, Note_on 0 60 96 0), (960, Note_off 0 60 0 0)])],
       active_until = [(0, 960)], last_note = [(0, 60)]\<rparr>, \<lambda>_. 0) 1 =
     Inr (\<lparr>events_by_ch = [(0, [(0, Note_on 0 60 96 0), (960, Note_off 0 60 0 0)])],
           active_until = [(0, 960)], last_note = [(0, 60)]\<rparr>, \<lambda>_. 0)
   \<and> (1::int) \<noteq> select_channels [(0, [(60, 100)])] ! (1 mod length (select_channels [(0, [(60, 100)])]))
   \<and> ch_busy_at \<lparr>events_by_ch = [(0, [(0, Note_on 0 60 96 0), (960, Note_off 0 60 0 0)])],
       active_until = [(0, 960)], last_note = [(0, 60)]\<rparr>
       (select_channels [(0, [(60, 100)])] ! (1 mod length (select_channels [(0, [(60, 100)])])))
       (int 1 * GRID)
   \<and> gen_loop [] [] (select_channels [(0, [(60, 100)])]) [0..<1] (gen_init, \<lambda>_. 0) =
     Inr (\<lparr>events_by_ch = [(0, [(0, Note_on 0 60 96 0), (240, Note_off 0 60 0 0)])],
           active_until = [(0, 240)], last_note = [(0, 60)]\<rparr>, \<lambda>_. 0)
   \<and> generate_events [] [(0, [(60, 100)])] [] 2 500000 (\<lambda>_. 0) =
     Inr (([(0, [(0, Note_on 0 60 96 0), (240, Note_off 0 60 0 0)])], [0]), \<lambda>_. 0)
   \<and> sorted (map fst
         (dict_get [(0::int, [(0::int, Note_on 0 60 96 0), (240, Note_off 0 60 0 0)])] 0 []))
   \<and> well_paired
         (dict_get [(0::int, [(0::int, Note_on 0 60 96 0), (240, Note_off 0 60 0 0)])] 0 [])"
proof -
  let ?sq = "[(0::int, [(60::int, 100::int)])]"
  let ?sa = "\<lparr>events_by_ch = [(0, [(0, Note_on 0 60 96 0), (960, Note_off 0 60 0 0)])],
       active_until = [(0, 960)], last_note = [(0, 60)]\<rparr>"
  let ?s = "\<lparr>events_by_ch = [(0, [(0, Note_on 0 60 96 0), (240, Note_off 0 60 0 0)])],
           active_until = [(0, 240)], last_note = [(0, 60)]\<rparr>"
  have step: "gen_step [] [] (select_channels ?sq) (?sa, \<lambda>_. 0) 1 = Inr (?sa, \<lambda>_. 0)"
    by (simp add: gen_unfold)
  have other: "(1::int) \<noteq> select_channels ?sq ! (1 mod length (select_channels ?sq))"
    by (simp add: select_channels_def MAX_CHANNELS_def)
  have busy: "ch_busy_at ?sa (select_channels ?sq ! (1 mod length (select_channels ?sq))) (int 1 * GRID)"
    by (simp add: gen_unfold)
  have run: "gen_loop [] [] (select_channels ?sq) [0..<1] (gen_init, \<lambda>_. 0) = Inr (?s, \<lambda>_. 0)"
    by (simp add: gen_unfold)
  have gen: "generate_events [] ?sq [] 2 500000 (\<lambda>_. 0) =
     Inr (([(0, [(0, Note_on 0 60 96 0), (240, Note_off 0 60 0 0)])], [0]), \<lambda>_. 0)"
    by (simp add: generate_events_def step_count_def BARS_def fallback_pool_def random_choice_def
        gen_unfold)
  show ?thesis
    using generate_events_round_robin
      [of ?sq 1 "[]" "[]" ?sa "\<lambda>_. 0" ?sa "\<lambda>_. 0" 1 "\<lambda>_. 0" ?s "\<lambda>_. 0" 0 "[]" 2 500000
         "[(0, [(0, Note_on 0 60 96 0), (240, Note_off 0 60 0 0)])]" "[0]"]
      step other busy run gen
    by blast
qed

section \<open>Generated note pairs\<close>

text \<open>
  Claim C7. A step that emits a note appends to the events of its voice a note start at
  the tick of the step and the note end of the same pitch at that tick plus \<open>d * GRID\<close>,
  where \<open>d\<close> is 1 or 2 when the busy count before the onset is at least
  \<open>MAX_GLOBAL_POLY - 1\<close> and 1, 2 or 4 otherwise; the end tick is greater than the start
  tick and is the new busy-until tick of the voice. After any number of steps, and in the
  result of \<^verbatim>\<open>generate_events\<close>, the events of every voice are such pairs only.
\<close>

theorem generate_events_note_pairs:
  "(gen_step M F (select_channels sq) (sa, ga) k = Inr (sb, gb) \<longrightarrow> sb \<noteq> sa \<longrightarrow>
      (\<exists>d n. d \<in> (if global_active_at sa (int k * GRID) \<ge> MAX_GLOBAL_POLY - 1
                   then {1, 2} else {1, 2, 4})
         \<and> dict_get (events_by_ch sb) (select_channels sq ! (k mod length (select_channels sq))) [] =
             dict_get (events_by_ch sa) (select_channels sq ! (k mod length (select_channels sq))) [] @
               [(int k * GRID,
                 Note_on (select_channels sq ! (k mod length (select_channels sq))) n 96 0),
                (int k * GRID + d * GRID,
                 Note_off (select_channels sq ! (k mod length (select_channels sq))) n 0 0)]
         \<and> int k * GRID < int k * GRID + d * GRID
         \<and> map_of (active_until sb) (select_channels sq ! (k mod length (select_channels sq))) =
             Some (int k * GRID + d * GRID)))
   \<and> (gen_loop M F (select_channels sq) [0..<n] (gen_init, g) = Inr (s, g') \<longrightarrow>
        well_paired (dict_get (events_by_ch s) c []))
   \<and> (generate_events M sq P tpb tempo g = Inr ((evs, chans), g') \<longrightarrow>
        well_paired (dict_get evs c []))"
proof (intro conjI impI)
  let ?ch = "select_channels sq ! (k mod length (select_channels sq))"
  assume step: "gen_step M F (select_channels sq) (sa, ga) k = Inr (sb, gb)" and "sb \<noteq> sa"
  with gen_step_cases [OF step] obtain d n where
    d: "d \<in> (if global_active_at sa (int k * GRID) \<ge> MAX_GLOBAL_POLY - 1
             then {1, 2} else {1, 2, 4})" and
    sb: "sb = emit_note sa ?ch (int k * GRID) (d * GRID) n"
    by blast
  have "0 < d * GRID" using d GRID_pos by (auto split: if_splits)
  then have "int k * GRID < int k * GRID + d * GRID" by simp
  moreover have "dict_get (events_by_ch sb) ?ch [] =
      dict_get (events_by_ch sa) ?ch [] @
        [(int k * GRID, Note_on ?ch n 96 0), (int k * GRID + d * GRID, Note_off ?ch n 0 0)]"
    by (simp add: sb emit_note_events)
  moreover have "map_of (active_until sb) ?ch = Some (int k * GRID + d * GRID)"
    by (simp add: sb emit_note_def map_of_dict_set)
  ultimately show "\<exists>d n. d \<in> (if global_active_at sa (int k * GRID) \<ge> MAX_GLOBAL_POLY - 1
                   then {1, 2} else {1, 2, 4})
         \<and> dict_get (events_by_ch sb) ?ch [] =
             dict_get (events_by_ch sa) ?ch [] @
               [(int k * GRID, Note_on ?ch n 96 0), (int k * GRID + d * GRID, Note_off ?ch n 0 0)]
         \<and> int k * GRID < int k * GRID + d * GRID
         \<and> map_of (active_until sb) ?ch = Some (int k * GRID + d * GRID)"
    using d by blast
next
  assume "gen_loop M F (select_channels sq) [0..<n] (gen_init, g) = Inr (s, g')"
  then have "voice_inv s c" using voice_inv_init by (rule gen_loop_voice_inv)
  then show "well_paired (dict_get (events_by_ch s) c [])"
    by (simp add: voice_inv_def Let_def)
next
  assume "generate_events M sq P tpb tempo g = Inr ((evs, chans), g')"
  from generate_events_loop [OF this] obtain s where
    "gen_loop M (fallback_pool sq) (select_channels sq) [0..<step_count tpb] (gen_init, g)
       = Inr (s, g')" and evs: "evs = events_by_ch s" by blast
  then have "voice_inv s c" using voice_inv_init by (blast intro: gen_loop_voice_inv)
  then show "well_paired (dict_get evs c [])"
    by (simp add: voice_inv_def Let_def evs)
qed

theorem generate_events_note_pairs_witness:
  "gen_step [] [] (select_channels []) (gen_init, \<lambda>_. 0) 0 =
     Inr (\<lparr>events_by_ch = [(0, [(0, Note_on 0 60 96 0), (240, Note_off 0 60 0 0)])],
           active_until = [(0, 240)], last_note = [(0, 60)]\<rparr>, \<lambda>_. 0)
   \<and> \<lparr>events_by_ch = [(0, [(0, Note_on 0 60 96 0), (240, Note_off 0 60 0 0)])],
        active_until = [(0, 240)], last_note = [(0, 60)]\<rparr> \<noteq> gen_init
   \<and> gen_loop [] [] (select_channels []) [0..<2] (gen_init, \<lambda>_. 0) =
     Inr (\<lparr>events_by_ch =
             [(0, [(0, Note_on 0 60 96 0), (240, Note_off 0 60 0 0)]),
              (1, [(240, Note_on 1 60 96 0), (480, Note_off 1 60 0 0)])],
           active_until = [(0, 240), (1, 480)],
           last_note = [(0, 60), (1, 60)]\<rparr>, \<lambda>_. 0)
   \<and> generate_events [] [] [] 2 500000 (\<lambda>_. 0) =
     Inr (([(0, [(0, Note_on 0 60 96 0), (240, Note_off 0 60 0 0)])], [0, 1, 2, 3]), \<lambda>_. 0)
   \<and> (\<exists>d n. d \<in> {1, 2, 4::int}
         \<and> [(0, Note_on 0 60 96 0), (240, Note_off 0 60 0 0)] =
             [(0, Note_on 0 n 96 0), (d * GRID, Note_off 0 n 0 0)])
   \<and> well_paired [(240, Note_on 1 60 96 0), (480, Note_off 1 60 0 0)]"
proof -
  let ?sb = "\<lparr>events_by_ch = [(0, [(0, Note_on 0 60 96 0), (240, Note_off 0 60 0 0)])],
        active_until = [(0, 240)], last_note = [(0, 60)]\<rparr>"
  let ?s = "\<lparr>events_by_ch =
             [(0, [(0, Note_on 0 60 96 0), (240, Note_off 0 60 0 0)]),
              (1, [(240, Note_on 1 60 96 0), (480, Note_off 1 60 0 0)])],
           active_until = [(0, 240), (1, 480)],
           last_note = [(0, 60), (1, 60)]\<rparr>"
  have step: "gen_step [] [] (select_channels []) (gen_init, \<lambda>_. 0) 0 = Inr (?sb, \<lambda>_. 0)"
    by (simp add: gen_unfold)
  have neq: "?sb \<noteq> gen_init" by (simp add: gen_init_def)
  have run: "gen_loop [] [] (select_channels []) [0..<2] (gen_init, \<lambda>_. 0) = Inr (?s, \<lambda>_. 0)"
    by (simp add: upt_rec gen_unfold)
  have gen: "generate_events [] [] [] 2 500000 (\<lambda>_. 0) =
     Inr (([(0, [(0, Note_on 0 60 96 0), (240, Note_off 0 60 0 0)])], [0, 1, 2, 3]), \<lambda>_. 0)"
    by (simp add: generate_events_def step_count_def BARS_def fallback_pool_def gen_unfold)
  have ch: "select_channels [] ! (0 mod length (select_channels [])) = 0"
    by (simp add: select_channels_def)
  have ga: "\<not> global_active_at gen_init (int 0 * GRID) \<ge> MAX_GLOBAL_POLY - 1"
    by (simp add: global_active_init MAX_GLOBAL_POLY_def)
  note inst = generate_events_note_pairs
      [of "[]" "[]" "[]" gen_init "\<lambda>_. 0" 0 ?sb "\<lambda>_. 0" 2 "\<lambda>_. 0" ?s "\<lambda>_. 0" 1 "[]" 2 500000
         "[(0, [(0, Note_on 0 60 96 0), (240, Note_off 0 60 0 0)])]" "[0, 1, 2, 3]"]
  from inst step neq obtain d n where
    d: "d \<in> (if global_active_at gen_init (int 0 * GRID) \<ge> MAX_GLOBAL_POLY - 1
             then {1, 2} else {1, 2, 4})" and
    ev: "dict_get (events_by_ch ?sb) (select_channels [] ! (0 mod length (select_channels []))) [] =
           dict_get (events_by_ch gen_init)
             (select_channels [] ! (0 mod length (select_channels []))) [] @
             [(int 0 * GRID,
               Note_on (select_channels [] ! (0 mod length (select_channels []))) n 96 0),
              (int 0 * GRID + d * GRID,
               Note_off (select_channels [] ! (0 mod length (select_channels []))) n 0 0)]"
    by blast
  have d124: "d \<in> {1, 2, 4}" using d ga by simp
  have "[(0, Note_on 0 60 96 0), (240, Note_off 0 60 0 0)] =
          [(0, Note_on 0 n 96 0), (d * GRID, Note_off 0 n 0 0)]"
    using ev unfolding ch by (simp add: dict_get_def gen_init_def)
  with d124 have pairs: "\<exists>d n. d \<in> {1, 2, 4::int}
         \<and> [(0, Note_on 0 60 96 0), (240, Note_off 0 60 0 0)] =
             [(0, Note_on 0 n 96 0), (d * GRID, Note_off 0 n 0 0)]"
    by blast
  from inst run have "well_paired (dict_get (events_by_ch ?s) 1 [])" by blast
  then have wp: "well_paired [(240, Note_on 1 60 96 0), (480, Note_off 1 60 0 0)]"
    by (simp add: dict_get_def)
  show ?thesis using step neq run gen pairs wp by blast
qed

section \<open>Facts about the note selector\<close>


















section \<open>Note selection policy\<close>



section \<open>Facts about first onsets\<close>







section \<open>The first pitch of a voice\<close>



section \<open>No error on a well-formed corpus\<close>










section \<open>No error on well-formed files\<close>












section \<open>Facts about generation without a corpus\<close>








section \<open>Empty corpus\<close>




section \<open>Determinism of the pipeline\<close>

lemma sort_listing:
  assumes "distinct la" and "distinct lb" and "set la = set lb"
  shows "sort la = sort lb"
proof (rule sorted_distinct_set_unique)
  show "sorted (sort la)" and "sorted (sort lb)" by simp_all
  show "distinct (sort la)" and "distinct (sort lb)" using assms by simp_all
  show "set (sort la) = set (sort lb)" using assms by simp
qed

text \<open>
  Claim C8. The output of a run is a function of the directory's entries, of what each
  file parses to and of the draws. The order in which the operating system lists the
  entries does not matter: two listings of the same entries give the same loaded files,
  in the order of the sorted names, and, with the same draws, the same output.
\<close>

theorem pipeline_deterministic:
  "distinct la \<and> distinct lb \<and> set la = set lb \<longrightarrow>
     load_midis parse (Some la) = load_midis parse (Some lb) \<and>
     main parse (Some la) g = main parse (Some lb) g"
proof (intro impI)
  assume "distinct la \<and> distinct lb \<and> set la = set lb"
  then have "sort la = sort lb" by (blast intro: sort_listing)
  then have "load_midis parse (Some la) = load_midis parse (Some lb)"
    by (simp add: load_midis_def)
  then show "load_midis parse (Some la) = load_midis parse (Some lb) \<and>
     main parse (Some la) g = main parse (Some lb) g"
    by (simp add: main_def)
qed

theorem pipeline_deterministic_witness:
  "distinct [''b.mid'', ''notes.txt'', ''a.MID'']
   \<and> distinct [''a.MID'', ''b.mid'', ''notes.txt'']
   \<and> set [''b.mid'', ''notes.txt'', ''a.MID''] = set [''a.MID'', ''b.mid'', ''notes.txt'']
   \<and> load_midis
        (\<lambda>name. if name = ''a.MID'' then Some \<lparr>ticks_per_beat = 8, tracks = []\<rparr>
                 else if name = ''b.mid'' then Some \<lparr>ticks_per_beat = 9, tracks = []\<rparr>
                 else None)
        (Some [''b.mid'', ''notes.txt'', ''a.MID'']) =
       [\<lparr>ticks_per_beat = 8, tracks = []\<rparr>, \<lparr>ticks_per_beat = 9, tracks = []\<rparr>]
   \<and> load_midis
        (\<lambda>name. if name = ''a.MID'' then Some \<lparr>ticks_per_beat = 8, tracks = []\<rparr>
                 else if name = ''b.mid'' then Some \<lparr>ticks_per_beat = 9, tracks = []\<rparr>
                 else None)
        (Some [''a.MID'', ''b.mid'', ''notes.txt'']) =
       [\<lparr>ticks_per_beat = 8, tracks = []\<rparr>, \<lparr>ticks_per_beat = 9, tracks = []\<rparr>]
   \<and> main
        (\<lambda>name. if name = ''a.MID'' then Some \<lparr>ticks_per_beat = 8, tracks = []\<rparr>
                 else if name = ''b.mid'' then Some \<lparr>ticks_per_beat = 9, tracks = []\<rparr>
                 else None)
        (Some [''b.mid'', ''notes.txt'', ''a.MID'']) (\<lambda>_. 0) =
      main
        (\<lambda>name. if name = ''a.MID'' then Some \<lparr>ticks_per_beat = 8, tracks = []\<rparr>
                 else if name = ''b.mid'' then Some \<lparr>ticks_per_beat = 9, tracks = []\<rparr>
                 else None)
        (Some [''a.MID'', ''b.mid'', ''notes.txt'']) (\<lambda>_. 0)"
proof -
  let ?parse = "\<lambda>name. if name = ''a.MID'' then Some \<lparr>ticks_per_beat = 8, tracks = []\<rparr>
                 else if name = ''b.mid'' then Some \<lparr>ticks_per_beat = 9, tracks = []\<rparr>
                 else None"
  have d1: "distinct [''b.mid'', ''notes.txt'', ''a.MID'']"
    and d2: "distinct [''a.MID'', ''b.mid'', ''notes.txt'']"
    and s: "set [''b.mid'', ''notes.txt'', ''a.MID''] = set [''a.MID'', ''b.mid'', ''notes.txt'']"
    by auto
  have l: "load_midis ?parse (Some [''a.MID'', ''b.mid'', ''notes.txt'']) =
       [\<lparr>ticks_per_beat = 8, tracks = []\<rparr>, \<lparr>ticks_per_beat = 9, tracks = []\<rparr>]"
    by code_simp
  from pipeline_deterministic
    [of "[''b.mid'', ''notes.txt'', ''a.MID'']" "[''a.MID'', ''b.mid'', ''notes.txt'']" ?parse
       "\<lambda>_. 0"] d1 d2 s
  have eq: "load_midis ?parse (Some [''b.mid'', ''notes.txt'', ''a.MID'']) =
        load_midis ?parse (Some [''a.MID'', ''b.mid'', ''notes.txt''])"
    and m: "main ?parse (Some [''b.mid'', ''notes.txt'', ''a.MID'']) (\<lambda>_. 0) =
        main ?parse (Some [''a.MID'', ''b.mid'', ''notes.txt'']) (\<lambda>_. 0)"
    by blast+
  from eq l have l': "load_midis ?parse (Some [''b.mid'', ''notes.txt'', ''a.MID'']) =
       [\<lparr>ticks_per_beat = 8, tracks = []\<rparr>, \<lparr>ticks_per_beat = 9, tracks = []\<rparr>]"
    by (rule trans)
  show ?thesis using d1 d2 s l l' m by blast
qed

end
